theory Spec2Isabelle
  imports Complex_Main
begin

section \<open>Approval voting and sequential proportional approval voting\<close>

text \<open>
  A shallow embedding of \<^verbatim>\<open>approval_election\<close> of \<^verbatim>\<open>approval.py\<close>.

  \<^item> A \<^verbatim>\<open>Candidate\<close> is a dataclass with the single field \<^verbatim>\<open>name\<close>; the generated
    \<^verbatim>\<open>__eq__\<close> compares names and \<^verbatim>\<open>__hash__\<close> hashes the name, so a candidate is
    the value of its name.
  \<^item> Weights are Python numbers: the int \<^verbatim>\<open>1\<close> of a fresh ballot, and the quotient
    \<^verbatim>\<open>1 / (1 + m)\<close> after a round. They are modelled by exact rationals; comparisons of
    scores, which decide the winner, are those of a linear order in both readings.
  \<^item> \<^verbatim>\<open>Counter\<close> is a \<^verbatim>\<open>dict\<close>, which keeps its keys in insertion order: it is an
    association list with distinct keys, a new key going to the end.
  \<^item> The ballots are mutated in place (only their \<^verbatim>\<open>weight\<close>); the model passes the list
    of ballots along, and a failing run returns the exception together with the ballots as
    it leaves them. The weight written to a ballot depends on that ballot's own approval
    list and on the winners only, so a list holding one ballot object twice behaves as the
    list holding two equal ballots.
\<close>

subsection \<open>Data model\<close>

datatype Candidate = Candidate (name: string)

record Ballot =
  approved_candidates :: "Candidate list"
  weight :: rat

record Round =
  winner :: Candidate
  scores :: "(Candidate \<times> rat) list"
  weighted_votes :: rat

record Result =
  winners :: "Candidate list"
  rounds :: "Round list"
  ballots :: "Ballot list"

text \<open>
  \<open>ValueError\<close> is what Python raises when \<^verbatim>\<open>(winner, _), *_ = scores.most_common()\<close>
  unpacks an empty list. \<open>InsufficientCandidates\<close> is the condition the specification
  names; no statement of the source raises it.
\<close>

datatype error = ValueError | InsufficientCandidates

type_synonym state = "Candidate list \<times> Round list \<times> Ballot list"

type_synonym 'a outcome = "(error \<times> Ballot list) + 'a"

subsection \<open>The scoring mapping\<close>

text \<open>\<^verbatim>\<open>scores[candidate] += w\<close> on a \<^verbatim>\<open>Counter\<close>: a missing key counts as 0 and is
  inserted last; a present key keeps its place.\<close>

fun counter_add :: "(Candidate \<times> rat) list \<Rightarrow> Candidate \<Rightarrow> rat \<Rightarrow> (Candidate \<times> rat) list" where
  "counter_add [] c w = [(c, 0 + w)]"
| "counter_add ((k, v) # kvs) c w =
     (if k = c then (k, v + w) # kvs else (k, v) # counter_add kvs c w)"

text \<open>The inner loop over one ballot's approval list, skipping the elected candidates.\<close>

fun score_ballot :: "Candidate list \<Rightarrow> rat \<Rightarrow> Candidate list \<Rightarrow> (Candidate \<times> rat) list
    \<Rightarrow> (Candidate \<times> rat) list" where
  "score_ballot ws w [] sc = sc"
| "score_ballot ws w (c # cs) sc =
     (if c \<in> set ws then score_ballot ws w cs sc
      else score_ballot ws w cs (counter_add sc c w))"

text \<open>The outer loop over the ballots.\<close>

fun score_ballots :: "Candidate list \<Rightarrow> Ballot list \<Rightarrow> (Candidate \<times> rat) list
    \<Rightarrow> (Candidate \<times> rat) list" where
  "score_ballots ws [] sc = sc"
| "score_ballots ws (b # bs) sc =
     score_ballots ws bs (score_ballot ws (weight b) (approved_candidates b) sc)"

text \<open>\<^verbatim>\<open>Counter.most_common()\<close> is \<^verbatim>\<open>sorted(self.items(), key=itemgetter(1), reverse=True)\<close>:
  a stable sort by descending count, so entries of equal count keep their insertion order.
  Insertion sort on the negated count is that sort.\<close>

definition most_common :: "(Candidate \<times> rat) list \<Rightarrow> (Candidate \<times> rat) list" where
  "most_common sc = sort_key (\<lambda>kv. - snd kv) sc"

text \<open>\<^verbatim>\<open>sum(b.weight for b in ballots)\<close>: from 0, left to right.\<close>

definition py_sum :: "rat list \<Rightarrow> rat" where
  "py_sum xs = foldl (+) 0 xs"

subsection \<open>Reweighting\<close>

definition approved_winners :: "Candidate list \<Rightarrow> Ballot \<Rightarrow> nat" where
  "approved_winners ws b = length (filter (\<lambda>c. c \<in> set ws) (approved_candidates b))"

definition reweight :: "Candidate list \<Rightarrow> Ballot \<Rightarrow> Ballot" where
  "reweight ws b = b\<lparr>weight := 1 / (1 + of_nat (approved_winners ws b))\<rparr>"

subsection \<open>One round, and the election\<close>

text \<open>The body of the \<^verbatim>\<open>while\<close> loop.\<close>

definition election_round :: "Candidate list \<Rightarrow> Round list \<Rightarrow> Ballot list \<Rightarrow> state outcome" where
  "election_round ws rs bs =
     (let sc = score_ballots ws bs [] in
      case most_common sc of
        [] \<Rightarrow> Inl (ValueError, bs)
      | (w, _) # _ \<Rightarrow>
          (let ws' = ws @ [w];
               rs' = rs @ [\<lparr>winner = w, scores = sc, weighted_votes = py_sum (map weight bs)\<rparr>]
           in Inr (ws', rs', map (reweight ws') bs)))"

function approval_loop :: "Candidate list \<Rightarrow> Round list \<Rightarrow> Ballot list \<Rightarrow> int \<Rightarrow> Result outcome" where
  "approval_loop ws rs bs seats =
     (if int (length ws) < seats then
        (case election_round ws rs bs of
           Inl e \<Rightarrow> Inl e
         | Inr (ws', rs', bs') \<Rightarrow> approval_loop ws' rs' bs' seats)
      else Inr \<lparr>winners = ws, rounds = rs, ballots = bs\<rparr>)"
  by pat_completeness auto
termination
  by (relation "measure (\<lambda>(ws, rs, bs, seats). nat (seats - int (length ws)))")
     (auto simp: election_round_def Let_def split: list.splits)

definition approval_election :: "Ballot list \<Rightarrow> int \<Rightarrow> Result outcome" where
  "approval_election bs seats = approval_loop [] [] bs seats"

text \<open>The state of the loop after \<open>k\<close> passes through its body.\<close>

fun run_rounds :: "nat \<Rightarrow> state \<Rightarrow> state outcome" where
  "run_rounds 0 st = Inr st"
| "run_rounds (Suc k) (ws, rs, bs) =
     (case election_round ws rs bs of
        Inl e \<Rightarrow> Inl e
      | Inr st' \<Rightarrow> run_rounds k st')"

subsection \<open>Notions the claims are stated with\<close>

text \<open>The approvals in the order the scoring pass meets them: ballot by ballot, each
  approval list from its head.\<close>

definition approvals :: "Ballot list \<Rightarrow> Candidate list" where
  "approvals bs = concat (map approved_candidates bs)"

text \<open>The candidates of a list, each at the place of its first occurrence.\<close>

definition first_seen :: "Candidate list \<Rightarrow> Candidate list" where
  "first_seen cs = rev (remdups (rev cs))"

text \<open>\<^verbatim>\<open>scores[c]\<close>: reading a \<^verbatim>\<open>Counter\<close>, 0 for a missing key.\<close>

definition counter_get :: "(Candidate \<times> rat) list \<Rightarrow> Candidate \<Rightarrow> rat" where
  "counter_get sc c = (case map_of sc c of None \<Rightarrow> 0 | Some v \<Rightarrow> v)"

text \<open>The raw approval count of a candidate: the number of ballots approving it.\<close>

definition approval_count :: "Ballot list \<Rightarrow> Candidate \<Rightarrow> nat" where
  "approval_count bs c = length (filter (\<lambda>b. c \<in> set (approved_candidates b)) bs)"

text \<open>The first element of a list at which a measure is maximal.\<close>

fun first_max :: "('a \<Rightarrow> nat) \<Rightarrow> 'a list \<Rightarrow> 'a option" where
  "first_max f [] = None"
| "first_max f (x # xs) =
     (case first_max f xs of
        None \<Rightarrow> Some x
      | Some y \<Rightarrow> if f x < f y then Some y else Some x)"

text \<open>The winner of plain approval voting as the specification words it: the candidate of
  maximal raw approval count, the first seen in ballot order among those tied.\<close>

definition raw_approval_winner :: "Ballot list \<Rightarrow> Candidate option" where
  "raw_approval_winner bs = first_max (approval_count bs) (first_seen (approvals bs))"

subsection \<open>Example inputs\<close>

definition cand_A :: Candidate where "cand_A = Candidate ''A''"

definition cand_B :: Candidate where "cand_B = Candidate ''B''"

definition cand_C :: Candidate where "cand_C = Candidate ''C''"

text \<open>\<^verbatim>\<open>Ballot(cs)\<close>: a ballot as its constructor makes it, with the default weight 1.\<close>

definition fresh :: "Candidate list \<Rightarrow> Ballot" where
  "fresh cs = \<lparr>approved_candidates = cs, weight = 1\<rparr>"

text \<open>Two ballots approving A and B, one approving A, one approving B, for two seats: the
  ballots, the ballots after the first round, and the result.\<close>

definition spav_ballots :: "Ballot list" where
  "spav_ballots = [fresh [cand_A, cand_B], fresh [cand_A, cand_B], fresh [cand_A], fresh [cand_B]]"


definition spav_round1 :: Round where
  "spav_round1 = \<lparr>winner = cand_A, scores = [(cand_A, 3), (cand_B, 3)], weighted_votes = 4\<rparr>"

definition spav_result :: Result where
  "spav_result =
     \<lparr>winners = [cand_A, cand_B],
      rounds = [spav_round1,
                \<lparr>winner = cand_B, scores = [(cand_B, 2)], weighted_votes = 5 / 2\<rparr>],
      ballots = [\<lparr>approved_candidates = [cand_A, cand_B], weight = 1 / 3\<rparr>,
                 \<lparr>approved_candidates = [cand_A, cand_B], weight = 1 / 3\<rparr>,
                 \<lparr>approved_candidates = [cand_A], weight = 1 / 2\<rparr>,
                 \<lparr>approved_candidates = [cand_B], weight = 1 / 2\<rparr>]\<rparr>"

text \<open>Two candidates, each approved by one ballot, for three seats: the ballots, and the
  rounds and ballots as the second round leaves them.\<close>

definition single_ballots :: "Ballot list" where
  "single_ballots = [fresh [cand_A], fresh [cand_B]]"

definition single_rounds :: "Round list" where
  "single_rounds =
     [\<lparr>winner = cand_A, scores = [(cand_A, 1), (cand_B, 1)], weighted_votes = 2\<rparr>,
      \<lparr>winner = cand_B, scores = [(cand_B, 1)], weighted_votes = 3 / 2\<rparr>]"

definition single_halved :: "Ballot list" where
  "single_halved =
     [\<lparr>approved_candidates = [cand_A], weight = 1 / 2\<rparr>,
      \<lparr>approved_candidates = [cand_B], weight = 1 / 2\<rparr>]"

text \<open>One ballot approving A then B, for one seat.\<close>

definition tie_ballots :: "Ballot list" where
  "tie_ballots = [fresh [cand_A, cand_B]]"

definition tie_result :: Result where
  "tie_result =
     \<lparr>winners = [cand_A],
      rounds = [\<lparr>winner = cand_A, scores = [(cand_A, 1), (cand_B, 1)], weighted_votes = 1\<rparr>],
      ballots = [\<lparr>approved_candidates = [cand_A, cand_B], weight = 1 / 2\<rparr>]\<rparr>"

text \<open>A ballot approving B and a ballot listing A twice, for one seat.\<close>

definition dup_ballots :: "Ballot list" where
  "dup_ballots = [fresh [cand_B], fresh [cand_A, cand_A]]"

definition dup_result :: Result where
  "dup_result =
     \<lparr>winners = [cand_A],
      rounds = [\<lparr>winner = cand_A, scores = [(cand_B, 1), (cand_A, 2)], weighted_votes = 2\<rparr>],
      ballots = [\<lparr>approved_candidates = [cand_B], weight = 1\<rparr>,
                 \<lparr>approved_candidates = [cand_A, cand_A], weight = 1 / 3\<rparr>]\<rparr>"

text \<open>Three ballots approving A and B, two approving B, one approving C, for one seat.\<close>

definition plain_ballots :: "Ballot list" where
  "plain_ballots = replicate 3 (fresh [cand_A, cand_B]) @ replicate 2 (fresh [cand_B]) @ [fresh [cand_C]]"

definition plain_result :: Result where
  "plain_result =
     \<lparr>winners = [cand_B],
      rounds = [\<lparr>winner = cand_B, scores = [(cand_A, 3), (cand_B, 5), (cand_C, 1)],
                 weighted_votes = 6\<rparr>],
      ballots = [\<lparr>approved_candidates = [cand_A, cand_B], weight = 1 / 2\<rparr>,
                 \<lparr>approved_candidates = [cand_A, cand_B], weight = 1 / 2\<rparr>,
                 \<lparr>approved_candidates = [cand_A, cand_B], weight = 1 / 2\<rparr>,
                 \<lparr>approved_candidates = [cand_B], weight = 1 / 2\<rparr>,
                 \<lparr>approved_candidates = [cand_B], weight = 1 / 2\<rparr>,
                 \<lparr>approved_candidates = [cand_C], weight = 1\<rparr>]\<rparr>"

section \<open>Properties of the parts\<close>

subsection \<open>Keys of the scoring mapping\<close>

lemma counter_add_keys:
  "map fst (counter_add sc c w) = (if c \<in> fst ` set sc then map fst sc else map fst sc @ [c])"
  by (induction sc c w rule: counter_add.induct) (auto simp: image_iff)

lemma counter_add_distinct:
  "distinct (map fst sc) \<Longrightarrow> distinct (map fst (counter_add sc c w))"
  by (simp add: counter_add_keys)

lemma score_ballot_keys:
  "fst ` set (score_ballot ws w cs sc) = fst ` set sc \<union> (set cs - set ws)"
proof (induction ws w cs sc rule: score_ballot.induct)
  case (1 ws w sc)
  then show ?case by simp
next
  case (2 ws w c cs sc)
  have "fst ` set (counter_add sc c w) = insert c (fst ` set sc)"
    using counter_add_keys [of sc c w] by (metis (no_types, lifting) Un_insert_right append_Nil2 insert_absorb list.set_map list.simps(15) set_append)
  with 2 show ?case by auto
qed

lemma score_ballot_distinct:
  "distinct (map fst sc) \<Longrightarrow> distinct (map fst (score_ballot ws w cs sc))"
  by (induction ws w cs sc rule: score_ballot.induct) (auto simp: counter_add_distinct)

lemma score_ballots_keys:
  "fst ` set (score_ballots ws bs sc)
     = fst ` set sc \<union> ((\<Union>b\<in>set bs. set (approved_candidates b)) - set ws)"
  by (induction ws bs sc rule: score_ballots.induct) (auto simp: score_ballot_keys)

lemma score_ballots_distinct:
  "distinct (map fst sc) \<Longrightarrow> distinct (map fst (score_ballots ws bs sc))"
  by (induction ws bs sc rule: score_ballots.induct) (auto simp: score_ballot_distinct)

text \<open>The keys stand in the order in which the scoring pass first meets them.\<close>

lemma first_seen_snoc:
  "first_seen (xs @ [x]) = (if x \<in> set xs then first_seen xs else first_seen xs @ [x])"
  by (simp add: first_seen_def)

lemma set_first_seen [simp]: "set (first_seen xs) = set xs"
  by (simp add: first_seen_def)

lemma distinct_first_seen [simp]: "distinct (first_seen xs)"
  by (simp add: first_seen_def)

lemma counter_add_first_seen:
  assumes "map fst sc = first_seen xs"
  shows "map fst (counter_add sc c w) = first_seen (xs @ [c])"
proof -
  have "fst ` set sc = set xs"
    using assms by (metis list.set_map set_first_seen)
  then show ?thesis
    using assms by (simp add: counter_add_keys first_seen_snoc)
qed

lemma score_ballot_first_seen:
  "map fst sc = first_seen xs \<Longrightarrow>
   map fst (score_ballot ws w cs sc) = first_seen (xs @ filter (\<lambda>c. c \<notin> set ws) cs)"
proof (induction cs arbitrary: sc xs)
  case Nil
  then show ?case by simp
next
  case (Cons c cs)
  show ?case
  proof (cases "c \<in> set ws")
    case True
    with Cons show ?thesis by simp
  next
    case False
    have "map fst (counter_add sc c w) = first_seen (xs @ [c])"
      by (rule counter_add_first_seen [OF Cons.prems])
    from Cons.IH [OF this] False show ?thesis by simp
  qed
qed

lemma score_ballots_first_seen:
  "map fst sc = first_seen xs \<Longrightarrow>
   map fst (score_ballots ws bs sc) = first_seen (xs @ filter (\<lambda>c. c \<notin> set ws) (approvals bs))"
proof (induction bs arbitrary: sc xs)
  case Nil
  then show ?case by (simp add: approvals_def)
next
  case (Cons b bs)
  have "map fst (score_ballot ws (weight b) (approved_candidates b) sc)
      = first_seen (xs @ filter (\<lambda>c. c \<notin> set ws) (approved_candidates b))"
    by (rule score_ballot_first_seen [OF Cons.prems])
  from Cons.IH [OF this] show ?case by (simp add: approvals_def)
qed

lemma score_ballots_keys_first_seen:
  "map fst (score_ballots ws bs []) = first_seen (filter (\<lambda>c. c \<notin> set ws) (approvals bs))"
  using score_ballots_first_seen [of "[]" "[]" ws bs] by (simp add: first_seen_def)

subsection \<open>Values of the scoring mapping\<close>

lemma counter_get_counter_add:
  "counter_get (counter_add sc c w) d = counter_get sc d + (if d = c then w else 0)"
  by (induction sc c w rule: counter_add.induct) (auto simp: counter_get_def)

lemma counter_get_score_ballot:
  "counter_get (score_ballot ws w cs sc) d =
     counter_get sc d + (if d \<in> set ws then 0 else w * of_nat (count_list cs d))"
  by (induction ws w cs sc rule: score_ballot.induct)
     (auto simp: counter_get_counter_add algebra_simps)

lemma counter_get_score_ballots:
  "counter_get (score_ballots ws bs sc) d =
     counter_get sc d +
     (if d \<in> set ws then 0
      else sum_list (map (\<lambda>b. weight b * of_nat (count_list (approved_candidates b) d)) bs))"
  by (induction ws bs sc rule: score_ballots.induct)
     (auto simp: counter_get_score_ballot)

lemma counter_get_nth:
  assumes "distinct (map fst sc)" and "j < length sc"
  shows "counter_get sc (fst (sc ! j)) = snd (sc ! j)"
proof -
  have "(fst (sc ! j), snd (sc ! j)) \<in> set sc"
    using assms(2) by simp
  then have "map_of sc (fst (sc ! j)) = Some (snd (sc ! j))"
    using assms(1) by (simp add: map_of_eq_Some_iff)
  then show ?thesis by (simp add: counter_get_def)
qed

lemma count_list_distinct:
  "distinct cs \<Longrightarrow> count_list cs d = (if d \<in> set cs then 1 else 0)"
  by (induction cs) auto

lemma plain_scores:
  assumes "\<forall>b\<in>set bs. weight b = 1" and "\<forall>b\<in>set bs. distinct (approved_candidates b)"
  shows "sum_list (map (\<lambda>b. weight b * of_nat (count_list (approved_candidates b) d)) bs)
           = (of_nat (approval_count bs d) :: rat)"
  using assms by (induction bs) (auto simp: approval_count_def count_list_distinct)

text \<open>Score conservation in the first round.\<close>

lemma first_round_scores:
  assumes "\<forall>b\<in>set bs. weight b = 1" and "\<forall>b\<in>set bs. distinct (approved_candidates b)"
    and "j < length (score_ballots [] bs [])"
  shows "snd (score_ballots [] bs [] ! j) = of_nat (approval_count bs (fst (score_ballots [] bs [] ! j)))"
proof -
  let ?sc = "score_ballots [] bs []"
  have "distinct (map fst ?sc)"
    by (simp add: score_ballots_distinct)
  then have "snd (?sc ! j) = counter_get ?sc (fst (?sc ! j))"
    using assms(3) by (simp add: counter_get_nth)
  also have "\<dots> = counter_get [] (fst (?sc ! j)) + of_nat (approval_count bs (fst (?sc ! j)))"
    by (simp add: counter_get_score_ballots plain_scores [OF assms(1,2)])
  also have "\<dots> = of_nat (approval_count bs (fst (?sc ! j)))"
    by (simp add: counter_get_def)
  finally show ?thesis .
qed

subsection \<open>The winner of a round\<close>

text \<open>The head of a stable sort is the first element of least key; for \<open>most_common\<close>,
  the first entry of greatest score.\<close>

lemma hd_insort_key:
  "hd (insort_key f x ys) = (if ys = [] \<or> f x \<le> f (hd ys) then x else hd ys)"
  by (cases ys) auto

lemma hd_sort_key_first_least:
  fixes f :: "'a \<Rightarrow> 'b::linorder"
  assumes "xs \<noteq> []"
  shows "\<exists>i<length xs. hd (sort_key f xs) = xs ! i \<and>
           (\<forall>j<length xs. f (xs ! i) \<le> f (xs ! j)) \<and>
           (\<forall>j<i. f (xs ! i) < f (xs ! j))"
  using assms
proof (induction xs)
  case Nil
  then show ?case by simp
next
  case (Cons x xs)
  show ?case
  proof (cases "xs = []")
    case True
    then show ?thesis by simp
  next
    case False
    with Cons.IH obtain i where i: "i < length xs" "hd (sort_key f xs) = xs ! i"
      "\<forall>j<length xs. f (xs ! i) \<le> f (xs ! j)" "\<forall>j<i. f (xs ! i) < f (xs ! j)"
      by blast
    have ne: "sort_key f xs \<noteq> []"
      using False by (metis length_0_conv length_sort)
    show ?thesis
    proof (cases "f x \<le> f (xs ! i)")
      case True
      then have h: "hd (sort_key f (x # xs)) = x"
        using i(2) by (simp add: hd_insort_key)
      have "\<forall>j<length (x # xs). f x \<le> f ((x # xs) ! j)"
      proof (intro allI impI)
        fix j assume "j < length (x # xs)"
        then show "f x \<le> f ((x # xs) ! j)"
          using True i(3) by (cases j) (auto intro: order_trans)
      qed
      with h show ?thesis
        by (intro exI [of _ 0]) simp
    next
      case False
      then have lt: "f (xs ! i) < f x" by simp
      have h: "hd (sort_key f (x # xs)) = xs ! i"
        using False i(2) ne by (simp add: hd_insort_key)
      have a: "\<forall>j<length (x # xs). f (xs ! i) \<le> f ((x # xs) ! j)"
      proof (intro allI impI)
        fix j assume "j < length (x # xs)"
        then show "f (xs ! i) \<le> f ((x # xs) ! j)"
          using lt i(3) by (cases j) auto
      qed
      have b: "\<forall>j<Suc i. f (xs ! i) < f ((x # xs) ! j)"
      proof (intro allI impI)
        fix j assume "j < Suc i"
        then show "f (xs ! i) < f ((x # xs) ! j)"
          using lt i(4) by (cases j) auto
      qed
      from h a b i(1) show ?thesis
        by (intro exI [of _ "Suc i"]) simp
    qed
  qed
qed

lemma most_common_hd:
  assumes "sc \<noteq> []"
  shows "\<exists>i<length sc. hd (most_common sc) = sc ! i \<and>
           (\<forall>j<length sc. snd (sc ! j) \<le> snd (sc ! i)) \<and>
           (\<forall>j<i. snd (sc ! j) < snd (sc ! i))"
  using hd_sort_key_first_least [OF assms, of "\<lambda>kv. - snd kv"]
  by (simp add: most_common_def)

lemma most_common_set: "set (most_common sc) = set sc"
  by (simp add: most_common_def)

lemma most_common_Nil: "most_common sc = [] \<longleftrightarrow> sc = []"
  by (metis most_common_set set_empty)

lemma first_max_Some:
  "xs \<noteq> [] \<Longrightarrow> \<exists>p<length xs. first_max f xs = Some (xs ! p) \<and>
      (\<forall>j<length xs. f (xs ! j) \<le> f (xs ! p)) \<and> (\<forall>j<p. f (xs ! j) < f (xs ! p))"
proof (induction xs)
  case Nil
  then show ?case by simp
next
  case (Cons x xs)
  show ?case
  proof (cases "xs = []")
    case True
    then show ?thesis by simp
  next
    case False
    with Cons.IH obtain p where p: "p < length xs" "first_max f xs = Some (xs ! p)"
      "\<forall>j<length xs. f (xs ! j) \<le> f (xs ! p)" "\<forall>j<p. f (xs ! j) < f (xs ! p)"
      by blast
    show ?thesis
    proof (cases "f x < f (xs ! p)")
      case True
      have a: "\<forall>j<length (x # xs). f ((x # xs) ! j) \<le> f (xs ! p)"
      proof (intro allI impI)
        fix j assume "j < length (x # xs)"
        then show "f ((x # xs) ! j) \<le> f (xs ! p)"
          using True p(3) by (cases j) auto
      qed
      have b: "\<forall>j<Suc p. f ((x # xs) ! j) < f (xs ! p)"
      proof (intro allI impI)
        fix j assume "j < Suc p"
        then show "f ((x # xs) ! j) < f (xs ! p)"
          using True p(4) by (cases j) auto
      qed
      have "first_max f (x # xs) = Some (xs ! p)"
        using True p(2) by simp
      with a b p(1) show ?thesis
        by (intro exI [of _ "Suc p"]) simp
    next
      case False
      have a: "\<forall>j<length (x # xs). f ((x # xs) ! j) \<le> f x"
      proof (intro allI impI)
        fix j assume j: "j < length (x # xs)"
        show "f ((x # xs) ! j) \<le> f x"
        proof (cases j)
          case 0
          then show ?thesis by simp
        next
          case (Suc k)
          with j have "f (xs ! k) \<le> f (xs ! p)" using p(3) by simp
          with False Suc show ?thesis by simp
        qed
      qed
      have "first_max f (x # xs) = Some x"
        using False p(2) by simp
      with a show ?thesis
        by (intro exI [of _ 0]) simp
    qed
  qed
qed

lemma first_max_unique:
  assumes "p < length xs" and "\<forall>j<length xs. f (xs ! j) \<le> f (xs ! p)"
    and "\<forall>j<p. f (xs ! j) < f (xs ! p)"
  shows "first_max f xs = Some (xs ! p)"
proof -
  from assms(1) have "xs \<noteq> []" by auto
  from first_max_Some [OF this, of f] obtain q where
    q: "q < length xs" "first_max f xs = Some (xs ! q)"
       "\<forall>j<length xs. f (xs ! j) \<le> f (xs ! q)" "\<forall>j<q. f (xs ! j) < f (xs ! q)"
    by blast
  have "q = p"
  proof (rule ccontr)
    assume "q \<noteq> p"
    then consider "q < p" | "p < q" by linarith
    then show False
    proof cases
      case 1
      with assms(3) have "f (xs ! q) < f (xs ! p)" by blast
      moreover from q(3) assms(1) have "f (xs ! p) \<le> f (xs ! q)" by blast
      ultimately show False by simp
    next
      case 2
      with q(4) have "f (xs ! p) < f (xs ! q)" by blast
      moreover from assms(2) q(1) have "f (xs ! q) \<le> f (xs ! p)" by blast
      ultimately show False by simp
    qed
  qed
  with q(2) show ?thesis by simp
qed

lemma election_round_Inl:
  "election_round ws rs bs = Inl e \<longleftrightarrow> e = (ValueError, bs) \<and> score_ballots ws bs [] = []"
proof (cases "score_ballots ws bs [] = []")
  case True
  then show ?thesis
    by (auto simp: election_round_def most_common_def)
next
  case False
  then have "most_common (score_ballots ws bs []) \<noteq> []"
    by (simp add: most_common_Nil)
  with False show ?thesis
    by (auto simp: election_round_def Let_def split: list.splits)
qed

lemma election_round_Inr:
  assumes "election_round ws rs bs = Inr (ws', rs', bs')"
  shows "\<exists>w s. most_common (score_ballots ws bs []) \<noteq> [] \<and>
           hd (most_common (score_ballots ws bs [])) = (w, s) \<and>
           ws' = ws @ [w] \<and>
           rs' = rs @ [\<lparr>winner = w, scores = score_ballots ws bs [],
                        weighted_votes = py_sum (map weight bs)\<rparr>] \<and>
           bs' = map (reweight ws') bs"
  using assms by (auto simp: election_round_def Let_def split: list.splits)

lemma election_round_winner_fresh:
  assumes "election_round ws rs bs = Inr (ws', rs', bs')"
  shows "last ws' \<notin> set ws" and "last ws' \<in> fst ` set (score_ballots ws bs [])"
proof -
  from election_round_Inr [OF assms] obtain w s where
    ne: "most_common (score_ballots ws bs []) \<noteq> []" and
    h: "hd (most_common (score_ballots ws bs [])) = (w, s)" and ws': "ws' = ws @ [w]"
    by blast
  from ne h have "(w, s) \<in> set (most_common (score_ballots ws bs []))"
    by (metis hd_in_set)
  then have in_sc: "(w, s) \<in> set (score_ballots ws bs [])"
    by (simp add: most_common_set)
  then have "w \<in> fst ` set (score_ballots ws bs [])"
    by force
  then show "last ws' \<in> fst ` set (score_ballots ws bs [])"
    by (simp add: ws')
  then show "last ws' \<notin> set ws"
    by (simp add: score_ballots_keys)
qed

subsection \<open>The loop as a sequence of rounds\<close>

lemma run_rounds_add:
  "run_rounds (j + k) st =
     (case run_rounds j st of Inl e \<Rightarrow> Inl e | Inr st' \<Rightarrow> run_rounds k st')"
proof (induction j st rule: run_rounds.induct)
  case (1 st)
  then show ?case by simp
next
  case (2 j ws rs bs)
  then show ?case by (simp split: sum.splits)
qed

lemma run_rounds_Suc_end:
  "run_rounds (Suc k) st =
     (case run_rounds k st of
        Inl e \<Rightarrow> Inl e
      | Inr (ws, rs, bs) \<Rightarrow> election_round ws rs bs)"
proof -
  have "run_rounds (k + 1) st =
     (case run_rounds k st of Inl e \<Rightarrow> Inl e | Inr st' \<Rightarrow> run_rounds 1 st')"
    by (rule run_rounds_add)
  moreover have "run_rounds 1 st' = (case st' of (ws, rs, bs) \<Rightarrow> election_round ws rs bs)" for st'
    by (cases st') (simp split: sum.splits)
  ultimately show ?thesis by (simp split: sum.splits prod.splits)
qed

lemma approval_loop_run_rounds:
  "approval_loop ws rs bs seats =
     (case run_rounds (nat (seats - int (length ws))) (ws, rs, bs) of
        Inl e \<Rightarrow> Inl e
      | Inr (ws', rs', bs') \<Rightarrow> Inr \<lparr>winners = ws', rounds = rs', ballots = bs'\<rparr>)"
proof (induction ws rs bs seats rule: approval_loop.induct)
  case (1 ws rs bs seats)
  show ?case
  proof (cases "int (length ws) < seats")
    case False
    then show ?thesis by simp
  next
    case True
    then obtain k where k: "nat (seats - int (length ws)) = Suc k"
      by (metis Suc_pred' zero_less_nat_eq zless_iff_Suc_zadd diff_gt_0_iff_gt)
    show ?thesis
    proof (cases "election_round ws rs bs")
      case (Inl e)
      with True k show ?thesis by (simp del: approval_loop.simps add: approval_loop.simps [of ws rs bs seats])
    next
      case (Inr st')
      obtain ws' rs' bs' where st': "st' = (ws', rs', bs')" by (cases st') auto
      have len: "length ws' = Suc (length ws)"
        using Inr st' by (auto simp: election_round_def Let_def split: list.splits)
      have k': "nat (seats - int (length ws')) = k"
        using k len by simp
      from "1.IH" [OF True Inr [unfolded st'] refl refl] k'
      have "approval_loop ws' rs' bs' seats =
         (case run_rounds k (ws', rs', bs') of
            Inl e \<Rightarrow> Inl e
          | Inr (ws', rs', bs') \<Rightarrow> Inr \<lparr>winners = ws', rounds = rs', ballots = bs'\<rparr>)"
        by simp
      with True k Inr st' show ?thesis
        by (simp del: approval_loop.simps add: approval_loop.simps [of ws rs bs seats])
    qed
  qed
qed

lemma approval_election_run_rounds:
  "approval_election bs seats =
     (case run_rounds (nat seats) ([], [], bs) of
        Inl e \<Rightarrow> Inl e
      | Inr (ws, rs, bs') \<Rightarrow> Inr \<lparr>winners = ws, rounds = rs, ballots = bs'\<rparr>)"
  using approval_loop_run_rounds [of "[]" "[]" bs seats]
  by (simp add: approval_election_def del: approval_loop.simps)

lemma reweight_approved [simp]:
  "approved_candidates (reweight ws b) = approved_candidates b"
  by (simp add: reweight_def)


lemma reweight_reweight [simp]: "reweight ws' (reweight ws b) = reweight ws' b"
  by (simp add: reweight_def approved_winners_def)

lemma approvals_reweight [simp]: "approvals (map (reweight ws) bs) = approvals bs"
  by (simp add: approvals_def comp_def)

lemma run_rounds_invariant:
  assumes "run_rounds k (ws, rs, bs) = Inr (ws', rs', bs')"
  shows "length ws' = length ws + k \<and> take (length ws) ws' = ws \<and>
         length rs' = length rs + k \<and> take (length rs) rs' = rs \<and>
         (distinct ws \<longrightarrow> distinct ws') \<and>
         bs' = (if k = 0 then bs else map (reweight ws') bs)"
  using assms
proof (induction k arbitrary: ws' rs' bs')
  case 0
  then show ?case by simp
next
  case (Suc k)
  from Suc.prems obtain ws1 rs1 bs1 where
    k: "run_rounds k (ws, rs, bs) = Inr (ws1, rs1, bs1)" and
    step: "election_round ws1 rs1 bs1 = Inr (ws', rs', bs')"
    by (auto simp: run_rounds_Suc_end split: sum.splits)
  note ih = Suc.IH [OF k]
  from election_round_Inr [OF step] obtain w s where
    ws': "ws' = ws1 @ [w]" and
    rs': "rs' = rs1 @ [\<lparr>winner = w, scores = score_ballots ws1 bs1 [],
                         weighted_votes = py_sum (map weight bs1)\<rparr>]" and
    bs': "bs' = map (reweight ws') bs1"
    by blast
  have fresh: "w \<notin> set ws1"
    using election_round_winner_fresh(1) [OF step] by (simp add: ws')
  have "bs' = map (reweight ws') bs"
    using ih bs' by (simp split: if_splits)
  moreover have "take (length ws) ws' = ws" "length ws' = length ws + Suc k"
    using ih ws' by simp_all
  moreover have "take (length rs) rs' = rs" "length rs' = length rs + Suc k"
    using ih rs' by simp_all
  moreover have "distinct ws \<longrightarrow> distinct ws'"
    using ih ws' fresh by simp
  ultimately show ?case by simp
qed

lemma approval_election_final:
  assumes "approval_election bs seats = Inr r"
  shows "run_rounds (nat seats) ([], [], bs) = Inr (winners r, rounds r, ballots r)"
  using assms by (auto simp: approval_election_run_rounds split: sum.splits)

lemma approval_election_lengths:
  assumes "approval_election bs seats = Inr r"
  shows "length (winners r) = nat seats" and "length (rounds r) = nat seats"
  using run_rounds_invariant [OF approval_election_final [OF assms]] by simp_all

text \<open>The state at the start of round \<open>i\<close> (counted from 0) of a successful election,
  and the round recorded there.\<close>

lemma approval_election_round:
  assumes ok: "approval_election bs seats = Inr r" and i: "i < length (rounds r)"
  shows "\<exists>bs_i. run_rounds i ([], [], bs) = Inr (take i (winners r), take i (rounds r), bs_i) \<and>
           bs_i = (if i = 0 then bs else map (reweight (take i (winners r))) bs) \<and>
           score_ballots (take i (winners r)) bs_i [] \<noteq> [] \<and>
           hd (most_common (score_ballots (take i (winners r)) bs_i [])) =
             (winners r ! i, snd (hd (most_common (score_ballots (take i (winners r)) bs_i [])))) \<and>
           rounds r ! i = \<lparr>winner = winners r ! i,
                             scores = score_ballots (take i (winners r)) bs_i [],
                             weighted_votes = py_sum (map weight bs_i)\<rparr>"
proof -
  let ?n = "nat seats"
  have fin: "run_rounds ?n ([], [], bs) = Inr (winners r, rounds r, ballots r)"
    by (rule approval_election_final [OF ok])
  have len: "length (winners r) = ?n" "length (rounds r) = ?n"
    by (rule approval_election_lengths [OF ok])+
  from i len have "?n = Suc i + (?n - Suc i)" by simp
  then have "run_rounds (Suc i + (?n - Suc i)) ([], [], bs) = Inr (winners r, rounds r, ballots r)"
    using fin by simp
  then obtain st1 where
    s1: "run_rounds (Suc i) ([], [], bs) = Inr st1" and
    s2: "run_rounds (?n - Suc i) st1 = Inr (winners r, rounds r, ballots r)"
    unfolding run_rounds_add by (auto split: sum.splits)
  obtain ws1 rs1 bs1 where st1: "st1 = (ws1, rs1, bs1)" by (cases st1) auto
  from s1 obtain ws0 rs0 bs0 where
    s0: "run_rounds i ([], [], bs) = Inr (ws0, rs0, bs0)" and
    step: "election_round ws0 rs0 bs0 = Inr (ws1, rs1, bs1)"
    unfolding st1 by (auto simp: run_rounds_Suc_end split: sum.splits)
  have inv0: "length ws0 = i" "length rs0 = i" "bs0 = (if i = 0 then bs else map (reweight ws0) bs)"
    using run_rounds_invariant [OF s0] by simp_all
  have inv2: "take (length ws1) (winners r) = ws1" "take (length rs1) (rounds r) = rs1"
    using run_rounds_invariant [OF s2 [unfolded st1]] by simp_all
  from election_round_Inr [OF step] obtain w s where
    ne: "most_common (score_ballots ws0 bs0 []) \<noteq> []" and
    h: "hd (most_common (score_ballots ws0 bs0 [])) = (w, s)" and
    ws1: "ws1 = ws0 @ [w]" and
    rs1: "rs1 = rs0 @ [\<lparr>winner = w, scores = score_ballots ws0 bs0 [],
                         weighted_votes = py_sum (map weight bs0)\<rparr>]"
    by blast
  have l1: "length ws1 = Suc i" "length rs1 = Suc i"
    using ws1 rs1 inv0 by simp_all
  have w0: "take i (winners r) = ws0"
  proof -
    have "take i (take (Suc i) (winners r)) = take i ws1"
      using inv2(1) l1(1) by simp
    then show ?thesis using ws1 inv0(1) by (simp add: min_def)
  qed
  have r0: "take i (rounds r) = rs0"
  proof -
    have "take i (take (Suc i) (rounds r)) = take i rs1"
      using inv2(2) l1(2) by simp
    then show ?thesis using rs1 inv0(2) by (simp add: min_def)
  qed
  have wi: "winners r ! i = w"
  proof -
    have "winners r ! i = take (Suc i) (winners r) ! i" by simp
    also have "\<dots> = ws1 ! i" using inv2(1) l1(1) by simp
    also have "\<dots> = w" using ws1 inv0(1) by (metis nth_append_length)
    finally show ?thesis .
  qed
  have ri: "rounds r ! i = \<lparr>winner = w, scores = score_ballots ws0 bs0 [],
                         weighted_votes = py_sum (map weight bs0)\<rparr>"
  proof -
    have "rounds r ! i = take (Suc i) (rounds r) ! i" by simp
    also have "\<dots> = rs1 ! i" using inv2(2) l1(2) by simp
    also have "\<dots> = \<lparr>winner = w, scores = score_ballots ws0 bs0 [],
                         weighted_votes = py_sum (map weight bs0)\<rparr>"
      using rs1 inv0(2) by (metis nth_append_length)
    finally show ?thesis .
  qed
  have ne': "score_ballots ws0 bs0 [] \<noteq> []"
    using ne by (simp add: most_common_Nil)
  show ?thesis
    using s0 inv0(3) ne' h wi ri unfolding w0 [symmetric] r0 [symmetric]
    by (intro exI [of _ bs0]) simp
qed

subsection \<open>The examples, evaluated\<close>

lemma spav_election: "approval_election spav_ballots 2 = Inr spav_result"
  by code_simp


section \<open>The claims of the specification\<close>

subsection \<open>Failure on an empty scoring mapping\<close>

text \<open>Claim C1, as the specification states it, at the empty ballot list with one seat: the election
  fails, but with the \<open>ValueError\<close> of the unpacking, not with
  \<open>InsufficientCandidates\<close>.\<close>

theorem empty_ballots_not_InsufficientCandidates:
  "approval_election [] 1 = Inl (ValueError, []) \<and>
   approval_election [] 1 \<noteq> Inl (InsufficientCandidates, [])"
  by code_simp

text \<open>Claim C1, amended. If the loop has completed \<open>k\<close> rounds, seats remain unfilled
  and the scoring mapping of the next round is empty, the election fails with the
  \<open>ValueError\<close> raised by unpacking the empty \<^verbatim>\<open>most_common()\<close>; no result
  is returned, and the ballots stay as the completed rounds left them. With \<open>k = 0\<close>
  and no ballots this is the election without ballots.\<close>

theorem empty_scores_raise_ValueError:
  assumes "run_rounds k ([], [], bs) = Inr (ws, rs, bs')" and "int k < seats"
    and "score_ballots ws bs' [] = []"
  shows "approval_election bs seats = Inl (ValueError, bs')"
proof -
  have step: "election_round ws rs bs' = Inl (ValueError, bs')"
    using assms(3) by (simp add: election_round_Inl)
  from assms(2) obtain j where j: "nat seats = k + Suc j"
    by (metis add_Suc_right less_imp_Suc_add nat_int zless_nat_conj of_nat_0_le_iff nat_mono_iff order_le_less_trans)
  have "run_rounds (k + Suc j) ([], [], bs) = Inl (ValueError, bs')"
    unfolding run_rounds_add using assms(1) step by simp
  then show ?thesis
    by (simp add: approval_election_run_rounds j)
qed

theorem empty_scores_raise_ValueError_witness:
  "run_rounds 2 ([], [], single_ballots) = Inr ([cand_A, cand_B], single_rounds, single_halved) \<and>
   int 2 < 3 \<and> score_ballots [cand_A, cand_B] single_halved [] = [] \<and>
   approval_election single_ballots 3 = Inl (ValueError, single_halved)"
proof -
  have a: "run_rounds 2 ([], [], single_ballots) = Inr ([cand_A, cand_B], single_rounds, single_halved)"
    by code_simp
  have b: "int 2 < 3" by simp
  have c: "score_ballots [cand_A, cand_B] single_halved [] = []"
    by code_simp
  from empty_scores_raise_ValueError [OF a b c] a b c show ?thesis by simp
qed

subsection \<open>The tie-break\<close>

text \<open>Claim C2. In every round of a successful election the keys of the score map stand in the order
  in which the scoring pass first met them (ballot by ballot, each approval list from its head,
  elected candidates left out), and the winner is the entry of maximal score such that every
  entry inserted before it has a strictly smaller score: among the candidates tied for the
  highest score, the one inserted first. The witness is the ballot approving A then B, one seat:
  A wins.\<close>

theorem tie_break_first_inserted:
  assumes "approval_election bs seats = Inr r" and "i < length (rounds r)"
  shows "map fst (scores (rounds r ! i))
           = first_seen (filter (\<lambda>c. c \<notin> set (take i (winners r))) (approvals bs)) \<and>
         winner (rounds r ! i) = winners r ! i \<and>
         (\<exists>p<length (scores (rounds r ! i)).
            fst (scores (rounds r ! i) ! p) = winner (rounds r ! i) \<and>
            (\<forall>j<length (scores (rounds r ! i)).
               snd (scores (rounds r ! i) ! j) \<le> snd (scores (rounds r ! i) ! p)) \<and>
            (\<forall>j<p. snd (scores (rounds r ! i) ! j) < snd (scores (rounds r ! i) ! p)))"
proof -
  let ?ws = "take i (winners r)"
  from approval_election_round [OF assms] obtain bs_i where
    b: "bs_i = (if i = 0 then bs else map (reweight ?ws) bs)" and
    ne: "score_ballots ?ws bs_i [] \<noteq> []" and
    h: "hd (most_common (score_ballots ?ws bs_i [])) =
          (winners r ! i, snd (hd (most_common (score_ballots ?ws bs_i []))))" and
    rd: "rounds r ! i = \<lparr>winner = winners r ! i, scores = score_ballots ?ws bs_i [],
                          weighted_votes = py_sum (map weight bs_i)\<rparr>"
    by blast
  let ?sc = "score_ballots ?ws bs_i []"
  have sc: "scores (rounds r ! i) = ?sc" and w: "winner (rounds r ! i) = winners r ! i"
    using rd by simp_all
  have "approvals bs_i = approvals bs"
    using b by simp
  then have keys: "map fst ?sc = first_seen (filter (\<lambda>c. c \<notin> set ?ws) (approvals bs))"
    using score_ballots_keys_first_seen [of ?ws bs_i] by simp
  from most_common_hd [OF ne] obtain p where
    p: "p < length ?sc" "hd (most_common ?sc) = ?sc ! p"
       "\<forall>j<length ?sc. snd (?sc ! j) \<le> snd (?sc ! p)"
       "\<forall>j<p. snd (?sc ! j) < snd (?sc ! p)"
    by blast
  have "fst (?sc ! p) = winners r ! i"
    using p(2) h by (metis fst_conv)
  with p(1,3,4) have "\<exists>p<length ?sc. fst (?sc ! p) = winners r ! i \<and>
      (\<forall>j<length ?sc. snd (?sc ! j) \<le> snd (?sc ! p)) \<and> (\<forall>j<p. snd (?sc ! j) < snd (?sc ! p))"
    by blast
  with keys w show ?thesis
    unfolding sc by simp
qed

theorem tie_break_first_inserted_witness:
  "approval_election tie_ballots 1 = Inr tie_result \<and>
   scores (rounds tie_result ! 0) = [(cand_A, 1), (cand_B, 1)] \<and>
   winner (rounds tie_result ! 0) = cand_A \<and> winners tie_result ! 0 = cand_A"
proof -
  have e: "approval_election tie_ballots 1 = Inr tie_result" by code_simp
  have l: "0 < length (rounds tie_result)" by (simp add: tie_result_def)
  have s: "scores (rounds tie_result ! 0) = [(cand_A, 1), (cand_B, 1)]"
    by (simp add: tie_result_def)
  from tie_break_first_inserted [OF e l] obtain p where
    p: "p < length (scores (rounds tie_result ! 0))"
       "fst (scores (rounds tie_result ! 0) ! p) = winner (rounds tie_result ! 0)"
       "\<forall>j<p. snd (scores (rounds tie_result ! 0) ! j) < snd (scores (rounds tie_result ! 0) ! p)"
    and w: "winner (rounds tie_result ! 0) = winners tie_result ! 0"
    by blast
  have "p = 0"
  proof (rule ccontr)
    assume "p \<noteq> 0"
    with p(1) s have "p = 1" by simp
    with p(3) have "snd (scores (rounds tie_result ! 0) ! 0) < snd (scores (rounds tie_result ! 0) ! 1)"
      by blast
    with s show False by simp
  qed
  with p(2) s have "winner (rounds tie_result ! 0) = cand_A" by simp
  with e s w show ?thesis by simp
qed

subsection \<open>The reweight law\<close>



subsection \<open>Single-seat elections\<close>

text \<open>Claim C4, as the specification states it, at the ballots \<open>[B]\<close> and
  \<open>[A, A]\<close>: both candidates are approved by one ballot, B is seen first, yet the
  election returns A, whose score counts the two entries of the second ballot.\<close>

theorem duplicate_approval_counts_twice:
  "map weight dup_ballots = [1, 1] \<and>
   approval_election dup_ballots 1 = Inr dup_result \<and> winners dup_result = [cand_A] \<and>
   approval_count dup_ballots cand_A = 1 \<and> approval_count dup_ballots cand_B = 1 \<and>
   raw_approval_winner dup_ballots = Some cand_B \<and> cand_A \<noteq> cand_B"
  by code_simp

text \<open>Claim C4, amended. For ballots of weight 1 none of which lists a candidate twice, and one
  seat, a successful election returns exactly one winner, and it is the candidate of maximal raw
  approval count, the first seen in ballot order among those tied.\<close>

theorem single_seat_is_plain_approval:
  assumes "\<forall>b\<in>set bs. weight b = 1" and "\<forall>b\<in>set bs. distinct (approved_candidates b)"
    and "approval_election bs 1 = Inr r"
  shows "\<exists>w. winners r = [w] \<and> raw_approval_winner bs = Some w"
proof -
  have len: "length (winners r) = 1" "length (rounds r) = 1"
    using approval_election_lengths [OF assms(3)] by simp_all
  then have i: "0 < length (rounds r)" by simp
  let ?sc = "score_ballots [] bs []"
  from approval_election_round [OF assms(3) i] have
    ne: "?sc \<noteq> []" and
    h: "hd (most_common ?sc) = (winners r ! 0, snd (hd (most_common ?sc)))"
    by simp_all
  from most_common_hd [OF ne] obtain p where
    p: "p < length ?sc" "hd (most_common ?sc) = ?sc ! p"
       "\<forall>j<length ?sc. snd (?sc ! j) \<le> snd (?sc ! p)"
       "\<forall>j<p. snd (?sc ! j) < snd (?sc ! p)"
    by blast
  let ?xs = "first_seen (approvals bs)"
  have keys: "map fst ?sc = ?xs"
    using score_ballots_keys_first_seen [of "[]" bs] by simp
  then have lx: "length ?xs = length ?sc"
    by (metis length_map)
  have nth: "?xs ! j = fst (?sc ! j)" if "j < length ?sc" for j
    using that keys by (metis nth_map)
  have val: "snd (?sc ! j) = of_nat (approval_count bs (?xs ! j))" if "j < length ?sc" for j
    using first_round_scores [OF assms(1,2) that] nth [OF that] by simp
  have le: "\<forall>j<length ?xs. approval_count bs (?xs ! j) \<le> approval_count bs (?xs ! p)"
  proof (intro allI impI)
    fix j assume "j < length ?xs"
    then have j: "j < length ?sc" using lx by simp
    from p(3) j have "snd (?sc ! j) \<le> snd (?sc ! p)" by blast
    then show "approval_count bs (?xs ! j) \<le> approval_count bs (?xs ! p)"
      using val [OF j] val [OF p(1)] by simp
  qed
  have lt: "\<forall>j<p. approval_count bs (?xs ! j) < approval_count bs (?xs ! p)"
  proof (intro allI impI)
    fix j assume jp: "j < p"
    then have j: "j < length ?sc" using p(1) by simp
    from p(4) jp have "snd (?sc ! j) < snd (?sc ! p)" by blast
    then show "approval_count bs (?xs ! j) < approval_count bs (?xs ! p)"
      using val [OF j] val [OF p(1)] by simp
  qed
  have "first_max (approval_count bs) ?xs = Some (?xs ! p)"
    using first_max_unique [of p ?xs "approval_count bs"] p(1) lx le lt by simp
  moreover have "?xs ! p = winners r ! 0"
    using nth [OF p(1)] p(2) h by (metis fst_conv)
  ultimately have "raw_approval_winner bs = Some (winners r ! 0)"
    by (simp add: raw_approval_winner_def)
  moreover have "winners r = [winners r ! 0]"
    using len(1) by (cases "winners r") auto
  ultimately show ?thesis by blast
qed

theorem single_seat_is_plain_approval_witness:
  "map weight plain_ballots = [1, 1, 1, 1, 1, 1] \<and>
   approval_count plain_ballots cand_A = 3 \<and> approval_count plain_ballots cand_B = 5 \<and>
   approval_count plain_ballots cand_C = 1 \<and>
   approval_election plain_ballots 1 = Inr plain_result \<and>
   winners plain_result = [cand_B] \<and> raw_approval_winner plain_ballots = Some cand_B"
proof -
  have a: "\<forall>b\<in>set plain_ballots. weight b = 1"
    by (auto simp: plain_ballots_def fresh_def)
  have b: "\<forall>b\<in>set plain_ballots. distinct (approved_candidates b)"
    by (auto simp: plain_ballots_def fresh_def cand_A_def cand_B_def)
  have e: "approval_election plain_ballots 1 = Inr plain_result" by code_simp
  have w: "winners plain_result = [cand_B]" by (simp add: plain_result_def)
  from single_seat_is_plain_approval [OF a b e] w
  have "raw_approval_winner plain_ballots = Some cand_B" by auto
  moreover have "map weight plain_ballots = [1, 1, 1, 1, 1, 1] \<and>
     approval_count plain_ballots cand_A = 3 \<and> approval_count plain_ballots cand_B = 5 \<and>
     approval_count plain_ballots cand_C = 1"
    by code_simp
  ultimately show ?thesis using e w by simp
qed

subsection \<open>Determinism\<close>



subsection \<open>Length and distinctness of the winners\<close>

text \<open>Claim C6. Whenever the election returns a result for \<open>seats \<ge> 0\<close>, the list of
  winners has exactly \<open>seats\<close> entries and no candidate occurs in it twice.\<close>

theorem winners_length_distinct:
  assumes "approval_election bs seats = Inr r" and "0 \<le> seats"
  shows "int (length (winners r)) = seats \<and> distinct (winners r)"
proof -
  have "length (winners r) = nat seats"
    by (rule approval_election_lengths [OF assms(1)])
  moreover have "distinct (winners r)"
    using run_rounds_invariant [OF approval_election_final [OF assms(1)]] by simp
  ultimately show ?thesis using assms(2) by simp
qed

theorem winners_length_distinct_witness:
  "approval_election spav_ballots 2 = Inr spav_result \<and> (0::int) \<le> 2 \<and>
   int (length (winners spav_result)) = 2 \<and> distinct (winners spav_result)"
  using winners_length_distinct [OF spav_election] spav_election by simp

subsection \<open>Score maps hold no elected candidate\<close>

text \<open>Claim C7. No key of the score map recorded for round \<open>i\<close> (counted from 0) is
  among the winners as they stood at the start of that round, which are the first
  \<open>i\<close> winners of the result.\<close>

theorem scores_exclude_elected:
  assumes "approval_election bs seats = Inr r" and "i < length (rounds r)"
  shows "fst ` set (scores (rounds r ! i)) \<inter> set (take i (winners r)) = {}"
proof -
  from approval_election_round [OF assms] obtain bs_i where
    "rounds r ! i = \<lparr>winner = winners r ! i,
                      scores = score_ballots (take i (winners r)) bs_i [],
                      weighted_votes = py_sum (map weight bs_i)\<rparr>"
    by blast
  then have "scores (rounds r ! i) = score_ballots (take i (winners r)) bs_i []"
    by simp
  then show ?thesis
    by (auto simp: score_ballots_keys)
qed

theorem scores_exclude_elected_witness:
  "approval_election spav_ballots 2 = Inr spav_result \<and> 1 < length (rounds spav_result) \<and>
   fst ` set (scores (rounds spav_result ! 1)) \<inter> set (take 1 (winners spav_result)) = {}"
proof -
  have l: "1 < length (rounds spav_result)" by (simp add: spav_result_def)
  from scores_exclude_elected [OF spav_election l] spav_election l show ?thesis by simp
qed

subsection \<open>Weighted votes\<close>



subsection \<open>The frame of a successful election\<close>

text \<open>Claim C9. A successful election changes the weights of the ballots only: the ballot list of
  the result has the length, the order and the approval lists of the list passed in, and each of
  its ballots is the ballot passed in up to its weight.\<close>

theorem only_weights_change:
  assumes "approval_election bs seats = Inr r"
  shows "length (ballots r) = length bs \<and>
         map approved_candidates (ballots r) = map approved_candidates bs \<and>
         (\<forall>i<length bs. ballots r ! i = (bs ! i)\<lparr>weight := weight (ballots r ! i)\<rparr>)"
proof -
  have b: "ballots r = (if nat seats = 0 then bs else map (reweight (winners r)) bs)"
    using run_rounds_invariant [OF approval_election_final [OF assms]] by simp
  show ?thesis
  proof (cases "nat seats = 0")
    case True
    with b show ?thesis by simp
  next
    case False
    with b have "ballots r = map (reweight (winners r)) bs" by simp
    then show ?thesis
      by (simp add: reweight_def comp_def)
  qed
qed

theorem only_weights_change_witness:
  "approval_election spav_ballots 2 = Inr spav_result \<and>
   length (ballots spav_result) = length spav_ballots \<and>
   map approved_candidates (ballots spav_result) = map approved_candidates spav_ballots \<and>
   ballots spav_result ! 0 = (spav_ballots ! 0)\<lparr>weight := weight (ballots spav_result ! 0)\<rparr>"
proof -
  have "0 < length spav_ballots" by (simp add: spav_ballots_def)
  with only_weights_change [OF spav_election] spav_election show ?thesis by blast
qed

subsection \<open>The ballots after a failure\<close>

text \<open>Claim C10. Two ballots approving one candidate each, three seats: two rounds are completed,
  the third finds no candidate and raises, and the ballots are left with the weights of the
  second reweighting, not with the weights they came with.\<close>

theorem failure_leaves_reweighted_ballots:
  "run_rounds 2 ([], [], single_ballots) = Inr ([cand_A, cand_B], single_rounds, single_halved) \<and>
   election_round [cand_A, cand_B] single_rounds single_halved = Inl (ValueError, single_halved) \<and>
   approval_election single_ballots 3 = Inl (ValueError, single_halved) \<and>
   map weight single_ballots = [1, 1] \<and> map weight single_halved = [1 / 2, 1 / 2]"
  by code_simp

end
